theory Spec2Isabelle
  imports Main "HOL-Library.Sublist" "HOL-Library.Multiset"
begin

unbundle bit_operations_syntax

section \<open>Strings\<close>

text \<open>
  A Python \<open>str\<close> is a sequence of Unicode code points, so a string is a list of
  natural numbers: \<open>length\<close> counts what \<open>len\<close> counts and the bullet U+2022 is one
  element. \<open>py\<close> reads an ASCII literal into this type.

  White space (\<open>str.isspace\<close>, used by \<open>str.strip()\<close>) and line boundaries
  (\<open>str.splitlines\<close>) are the complete CPython tables. Case mapping and the regular
  expression classes \<open>\d\<close> and \<open>\w\<close> come from the Unicode character database; here
  they are the ASCII part of it (code points from 128 on are left unchanged by
  \<open>upper\<close> and \<open>lower\<close>, and are neither digits nor word characters).
\<close>

type_synonym str = "nat list"

definition py :: "string \<Rightarrow> str" where
  "py s = map of_char s"

definition isspace :: "nat \<Rightarrow> bool" where
  "isspace c \<longleftrightarrow>
     (9 \<le> c \<and> c \<le> 13) \<or> (28 \<le> c \<and> c \<le> 32) \<or> c = 133 \<or> c = 160 \<or> c = 5760 \<or>
     (8192 \<le> c \<and> c \<le> 8202) \<or> c = 8232 \<or> c = 8233 \<or> c = 8239 \<or> c = 8287 \<or> c = 12288"

definition is_linebreak :: "nat \<Rightarrow> bool" where
  "is_linebreak c \<longleftrightarrow>
     (10 \<le> c \<and> c \<le> 13) \<or> (28 \<le> c \<and> c \<le> 30) \<or> c = 133 \<or> c = 8232 \<or> c = 8233"

definition is_alpha :: "nat \<Rightarrow> bool" where
  \<comment> \<open>the class \<open>[A-Za-z]\<close>\<close>
  "is_alpha c \<longleftrightarrow> (65 \<le> c \<and> c \<le> 90) \<or> (97 \<le> c \<and> c \<le> 122)"



definition upper_char :: "nat \<Rightarrow> nat" where
  "upper_char c = (if 97 \<le> c \<and> c \<le> 122 then c - 32 else c)"

definition lower_char :: "nat \<Rightarrow> nat" where
  "lower_char c = (if 65 \<le> c \<and> c \<le> 90 then c + 32 else c)"

definition upper :: "str \<Rightarrow> str" where
  "upper s = map upper_char s"

definition lower :: "str \<Rightarrow> str" where
  "lower s = map lower_char s"

definition strip_by :: "(nat \<Rightarrow> bool) \<Rightarrow> str \<Rightarrow> str" where
  \<comment> \<open>remove the leading and the trailing run of characters satisfying \<open>P\<close>\<close>
  "strip_by P s = rev (dropWhile P (rev (dropWhile P s)))"

definition strip :: "str \<Rightarrow> str" where
  \<comment> \<open>\<open>s.strip()\<close>\<close>
  "strip s = strip_by isspace s"

definition strip_chars :: "str \<Rightarrow> str \<Rightarrow> str" where
  \<comment> \<open>\<open>s.strip(cs)\<close>\<close>
  "strip_chars cs s = strip_by (\<lambda>c. c \<in> set cs) s"

fun contains :: "str \<Rightarrow> str \<Rightarrow> bool" where
  \<comment> \<open>\<open>sub in s\<close>\<close>
  "contains sub [] = (sub = [])"
| "contains sub (c # s) = (prefix sub (c # s) \<or> contains sub s)"

fun splitlines_from :: "str \<Rightarrow> bool \<Rightarrow> str \<Rightarrow> str list" where
  \<comment> \<open>\<open>cur\<close> is the line read so far; \<open>cr\<close> says that the previous character was a
      carriage return, whose line feed (if one follows) belongs to the same boundary\<close>
  "splitlines_from cur cr [] = (if cur = [] then [] else [cur])"
| "splitlines_from cur cr (c # s) =
     (if cr \<and> c = 10 then splitlines_from cur False s
      else if is_linebreak c then cur # splitlines_from [] (c = 13) s
      else splitlines_from (cur @ [c]) False s)"

definition splitlines :: "str \<Rightarrow> str list" where
  "splitlines s = splitlines_from [] False s"

fun split_on :: "nat \<Rightarrow> str \<Rightarrow> str list" where
  \<comment> \<open>\<open>s.split(d)\<close> for a one-character separator\<close>
  "split_on d [] = [[]]"
| "split_on d (c # s) =
     (if c = d then [] # split_on d s
      else (case split_on d s of [] \<Rightarrow> [[c]] | x # xs \<Rightarrow> (c # x) # xs))"



text \<open>
  What a call can end in other than a value: \<open>ReError\<close> is \<open>re.error\<close> raised while
  the pattern is compiled, \<open>KeyError\<close> a missing dictionary key.
  \<open>PatternNotModelled\<close> marks the calls of \<open>extract_section\<close> whose pattern lies
  outside the fragment of regular expressions interpreted below; nothing is stated about
  those calls.
\<close>

datatype error = ReError | KeyError | PatternNotModelled

section \<open>Style-aware segmentation: \<open>extract_bold_lines_from_section\<close>\<close>

text \<open>
  The document as PyMuPDF hands it over: pages of blocks, a block with an optional list of
  lines (image blocks have none), a line with an optional list of spans, a span with its
  text, font name and optional flags.
\<close>

record span =
  span_text :: str
  span_font :: str
  span_flags :: "int option"

datatype line = Line (spans: "span list option")















section \<open>Section segmentation: \<open>extract_section\<close>\<close>






definition at_end :: "str \<Rightarrow> bool" where
  \<comment> \<open>\<open>$\<close> without \<open>re.MULTILINE\<close>, \<open>rest\<close> being the text from the current position:
      at the end of the text, or just before a newline that ends the text\<close>
  "at_end rest \<longleftrightarrow> rest = [] \<or> rest = [10]"








section \<open>Field extractors\<close>

definition bullets :: "str" where
  \<comment> \<open>the characters of \<open>"\<bullet>- "\<close>: U+2022, hyphen, space\<close>
  "bullets = [8226, 45, 32]"

definition nonblank_lines :: "str \<Rightarrow> str list" where
  \<comment> \<open>\<open>[line for line in text.splitlines() if line.strip()]\<close>\<close>
  "nonblank_lines t = filter (\<lambda>line. strip line \<noteq> []) (splitlines t)"

definition extract_certificates :: "str \<Rightarrow> str list" where
  "extract_certificates t = map (strip_chars bullets) (nonblank_lines t)"

definition is_alpha_space :: "nat \<Rightarrow> bool" where
  \<comment> \<open>the class \<open>[A-Za-z ]\<close>\<close>
  "is_alpha_space c \<longleftrightarrow> is_alpha c \<or> c = 32"




type_synonym skills = "(str \<times> str list) list"

fun dict_set :: "skills \<Rightarrow> str \<Rightarrow> str list \<Rightarrow> skills" where
  \<comment> \<open>\<open>d[k] = v\<close> on an insertion-ordered dict: an existing key keeps its place\<close>
  "dict_set [] k v = [(k, v)]"
| "dict_set ((k', v') # d) k v = (if k' = k then (k, v) # d else (k', v') # dict_set d k v)"

definition is_category :: "str \<Rightarrow> bool" where
  \<comment> \<open>\<open>re.match(r"^[A-Za-z ]+$", line)\<close>\<close>
  "is_category ln \<longleftrightarrow>
     takeWhile is_alpha_space ln \<noteq> [] \<and> at_end (dropWhile is_alpha_space ln)"

definition skill_items :: "str \<Rightarrow> str list" where
  \<comment> \<open>\<open>[item.strip() for item in line.split(",") if item.strip()]\<close>\<close>
  "skill_items ln = map strip (filter (\<lambda>item. strip item \<noteq> []) (split_on 44 ln))"

fun skills_loop :: "skills \<Rightarrow> str option \<Rightarrow> str list \<Rightarrow> error + skills" where
  \<comment> \<open>the loop over the lines, on the state \<open>(skills, current)\<close>\<close>
  "skills_loop sk current [] = Inr sk"
| "skills_loop sk current (raw # ls) =
     (let ln = strip raw in
      if ln = [] then skills_loop sk current ls
      else if \<not> contains [58] ln \<and> is_category ln
        then skills_loop (dict_set sk ln []) (Some ln) ls
      else (case current of
              None \<Rightarrow> skills_loop sk current ls
            | Some cur \<Rightarrow>
                if cur = [] then skills_loop sk current ls
                else (case map_of sk cur of
                        None \<Rightarrow> Inl KeyError
                      | Some items \<Rightarrow>
                          skills_loop (dict_set sk cur (items @ skill_items ln)) current ls)))"

definition parse_skills :: "str \<Rightarrow> error + skills" where
  "parse_skills skills_text = skills_loop [] None (splitlines skills_text)"











section \<open>Education buckets: \<open>parse_education\<close>\<close>

datatype bucket = Btech | Intermed | Tenth

definition next_section :: "bucket option \<Rightarrow> str \<Rightarrow> bucket option" where
  \<comment> \<open>the \<open>if\<close>/\<open>elif\<close> chain that moves \<open>current_section\<close>\<close>
  "next_section current_section ln =
     (let l = lower ln in
      if contains (py ''bachelor'') l \<or> contains (py ''b.tech'') l \<or> contains (py ''engineering'') l
        then Some Btech
      else if contains (py ''intermediate'') l \<or> contains (py ''junior college'') l
        then Some Intermed
      else if contains (py ''secondary education'') l \<or> contains (py ''high school'') l
        then Some Tenth
      else current_section)"

fun education_loop ::
  "str list \<times> str list \<times> str list \<Rightarrow> bucket option \<Rightarrow> str list \<Rightarrow> str list \<times> str list \<times> str list"
where
  \<comment> \<open>\<open>current_section\<close> names the list that \<open>append\<close> extends\<close>
  "education_loop bs current_section [] = bs"
| "education_loop (btech, interm, tenth) current_section (ln # ls) =
     (let cur = next_section current_section ln in
      case cur of
        None \<Rightarrow> education_loop (btech, interm, tenth) cur ls
      | Some Btech \<Rightarrow> education_loop (btech @ [ln], interm, tenth) cur ls
      | Some Intermed \<Rightarrow> education_loop (btech, interm @ [ln], tenth) cur ls
      | Some Tenth \<Rightarrow> education_loop (btech, interm, tenth @ [ln]) cur ls)"

definition education_lines :: "str \<Rightarrow> str list" where
  "education_lines edu_text = map (strip_chars bullets) (nonblank_lines edu_text)"

definition parse_education :: "str \<Rightarrow> str list \<times> str list \<times> str list" where
  "parse_education edu_text = education_loop ([], [], []) None (education_lines edu_text)"

fun section_trace :: "bucket option \<Rightarrow> str list \<Rightarrow> bucket option list" where
  \<comment> \<open>the value of \<open>current_section\<close> at each line's \<open>append\<close>\<close>
  "section_trace current_section [] = []"
| "section_trace current_section (ln # ls) =
     next_section current_section ln # section_trace (next_section current_section ln) ls"

definition routed :: "bucket option \<Rightarrow> bucket option \<Rightarrow> str list \<Rightarrow> str list" where
  \<comment> \<open>the lines whose \<open>append\<close> happened under \<open>b\<close> (\<open>None\<close>: the dropped lines), in
      order, when the loop starts with \<open>current_section = cur\<close>\<close>
  "routed cur b ls = map fst (filter (\<lambda>p. snd p = b) (zip ls (section_trace cur ls)))"

section \<open>Notions used in the statements\<close>

definition lstrip_chars :: "str \<Rightarrow> str \<Rightarrow> str" where
  \<comment> \<open>removal of the leading run only, as \<open>s.lstrip(cs)\<close> does\<close>
  "lstrip_chars cs s = dropWhile (\<lambda>c. c \<in> set cs) s"

definition clean_token :: "str \<Rightarrow> bool" where
  \<comment> \<open>non-empty, free of commas, and unchanged by \<open>strip\<close>\<close>
  "clean_token t \<longleftrightarrow> t \<noteq> [] \<and> 44 \<notin> set t \<and> strip t = t"

definition clean_skills :: "skills \<Rightarrow> bool" where
  \<comment> \<open>every token of every category is clean\<close>
  "clean_skills sk \<longleftrightarrow> (\<forall>p \<in> set sk. \<forall>t \<in> set (snd p). clean_token t)"

definition keyed :: "skills \<Rightarrow> str option \<Rightarrow> bool" where
  \<comment> \<open>the loop invariant: \<open>current\<close>, once set, is a key of \<open>skills\<close>\<close>
  "keyed sk cur \<longleftrightarrow> (case cur of None \<Rightarrow> True | Some c \<Rightarrow> map_of sk c \<noteq> None)"


section \<open>Properties of the style-aware segmentation\<close>








lemmas str_eval = py_def strip_def strip_by_def isspace_def upper_def upper_char_def lower_def
  lower_char_def







section \<open>Properties of \<open>parse_skills\<close>\<close>

lemma strip_by_ends:
  "strip_by P s = [] \<or> (\<not> P (hd (strip_by P s)) \<and> \<not> P (last (strip_by P s)))"
proof (cases "strip_by P s = []")
  case True
  then show ?thesis by simp
next
  case False
  let ?d = "dropWhile P s"
  let ?r = "dropWhile P (rev ?d)"
  from False have r: "?r \<noteq> []" by (simp add: strip_by_def)
  then have "\<not> P (hd ?r)" by (rule hd_dropWhile)
  then have l: "\<not> P (last (strip_by P s))"
    using r by (simp add: strip_by_def last_rev)
  from r have d: "?d \<noteq> []" by (cases "?d") simp_all
  then have hd_d: "\<not> P (hd ?d)" by (rule hd_dropWhile)
  obtain k where k: "?r = drop k (rev ?d)"
    by (metis dropWhile_eq_drop)
  have "hd (rev ?r) = hd ?d"
  proof -
    have "rev ?r = take (length ?d - k) ?d"
      by (simp add: k rev_drop)
    moreover have "length ?d - k > 0"
      using r k by simp
    ultimately show ?thesis by (simp add: hd_take)
  qed
  with hd_d have "\<not> P (hd (strip_by P s))" by (simp add: strip_by_def)
  with l show ?thesis by simp
qed

lemma strip_by_fixed:
  "s = [] \<or> (\<not> P (hd s) \<and> \<not> P (last s)) \<Longrightarrow> strip_by P s = s"
proof (cases s)
  case Nil
  then show ?thesis by (simp add: strip_by_def)
next
  case (Cons a l)
  assume "s = [] \<or> (\<not> P (hd s) \<and> \<not> P (last s))"
  with Cons have h: "\<not> P a" and t: "\<not> P (last (a # l))" by auto
  from h have "dropWhile P (a # l) = a # l" by simp
  moreover from t have "dropWhile P (rev (a # l)) = rev (a # l)"
    by (metis dropWhile_eq_self_iff hd_rev)
  ultimately show ?thesis unfolding Cons strip_by_def by (simp only: rev_rev_ident)
qed

lemma strip_by_idem: "strip_by P (strip_by P s) = strip_by P s"
  by (rule strip_by_fixed) (rule strip_by_ends)

lemma set_strip_by: "set (strip_by P s) \<subseteq> set s"
proof
  fix x
  assume "x \<in> set (strip_by P s)"
  then have "x \<in> set (dropWhile P (rev (dropWhile P s)))"
    by (simp add: strip_by_def)
  then have "x \<in> set (rev (dropWhile P s))" by (rule set_dropWhileD)
  then have "x \<in> set (dropWhile P s)" by simp
  then show "x \<in> set s" by (rule set_dropWhileD)
qed

lemma split_on_nonempty: "split_on d s \<noteq> []"
  by (induction s) (auto split: list.splits)

lemma split_on_free: "x \<in> set (split_on d s) \<Longrightarrow> d \<notin> set x"
proof (induction s arbitrary: x)
  case Nil
  then show ?case by simp
next
  case (Cons c s)
  show ?case
  proof (cases "c = d")
    case True
    with Cons show ?thesis by auto
  next
    case False
    obtain y ys where y: "split_on d s = y # ys"
      using split_on_nonempty [of d s] by (cases "split_on d s") auto
    with False Cons.prems have "x = c # y \<or> x \<in> set ys" by simp
    then show ?thesis
      using Cons.IH [of y] Cons.IH [of x] y False by auto
  qed
qed

lemma split_on_single: "d \<notin> set s \<Longrightarrow> split_on d s = [s]"
  by (induction s) auto


lemma skill_items_clean: "t \<in> set (skill_items ln) \<Longrightarrow> clean_token t"
proof -
  assume "t \<in> set (skill_items ln)"
  then obtain item where item: "item \<in> set (split_on 44 ln)" "strip item \<noteq> []" "t = strip item"
    by (auto simp: skill_items_def)
  from item(1) have "44 \<notin> set item" by (rule split_on_free)
  then have "44 \<notin> set t"
    using set_strip_by [of isspace item] item(3) by (auto simp: strip_def)
  moreover have "strip t = t"
    unfolding item(3) strip_def by (rule strip_by_idem)
  ultimately show ?thesis using item(2,3) by (simp add: clean_token_def)
qed

lemma skill_items_fixed: "clean_token t \<Longrightarrow> skill_items t = [t]"
  by (simp add: clean_token_def skill_items_def split_on_single)

lemma resplit_clean: "\<forall>t \<in> set toks. clean_token t \<Longrightarrow> concat (map skill_items toks) = toks"
  by (induction toks) (simp_all add: skill_items_fixed)

lemma map_of_dict_set: "map_of (dict_set d k v) = (map_of d)(k \<mapsto> v)"
  by (induction d k v rule: dict_set.induct) auto

lemma set_dict_set: "set (dict_set d k v) \<subseteq> insert (k, v) (set d)"
  by (induction d k v rule: dict_set.induct) auto

lemma clean_dict_set:
  "clean_skills sk \<Longrightarrow> \<forall>t \<in> set v. clean_token t \<Longrightarrow> clean_skills (dict_set sk k v)"
  using set_dict_set [of sk k v] by (fastforce simp: clean_skills_def)

lemma clean_lookup:
  "clean_skills sk \<Longrightarrow> map_of sk k = Some items \<Longrightarrow> \<forall>t \<in> set items. clean_token t"
  by (force simp: clean_skills_def dest: map_of_SomeD)

lemma skills_loop_blank:
  "strip raw = [] \<Longrightarrow> skills_loop sk cur (raw # ls) = skills_loop sk cur ls"
  by simp

lemma skills_loop_category:
  "strip raw \<noteq> [] \<Longrightarrow> \<not> contains [58] (strip raw) \<and> is_category (strip raw) \<Longrightarrow>
   skills_loop sk cur (raw # ls) = skills_loop (dict_set sk (strip raw) []) (Some (strip raw)) ls"
  by (simp add: Let_def)

lemma skills_loop_items:
  assumes "strip raw \<noteq> []" and "\<not> (\<not> contains [58] (strip raw) \<and> is_category (strip raw))"
  shows "skills_loop sk cur (raw # ls) =
    (case cur of
       None \<Rightarrow> skills_loop sk cur ls
     | Some c \<Rightarrow>
         if c = [] then skills_loop sk cur ls
         else (case map_of sk c of
                 None \<Rightarrow> Inl KeyError
               | Some items \<Rightarrow>
                   skills_loop (dict_set sk c (items @ skill_items (strip raw))) cur ls))"
  unfolding skills_loop.simps Let_def if_not_P [OF assms(1)] if_not_P [OF assms(2)] ..

lemma skills_loop_clean:
  "clean_skills sk \<Longrightarrow> skills_loop sk cur ls = Inr sk' \<Longrightarrow> clean_skills sk'"
proof (induction ls arbitrary: sk cur)
  case Nil
  then show ?case by simp
next
  case (Cons raw ls)
  let ?ln = "strip raw"
  show ?case
  proof (cases "?ln = []")
    case True
    with Cons show ?thesis by simp
  next
    case ne: False
    show ?thesis
    proof (cases "\<not> contains [58] ?ln \<and> is_category ?ln")
      case True
      with ne Cons.prems have "skills_loop (dict_set sk ?ln []) (Some ?ln) ls = Inr sk'"
        by (simp add: Let_def)
      moreover have "clean_skills (dict_set sk ?ln [])"
        using Cons.prems(1) by (rule clean_dict_set) simp
      ultimately show ?thesis by (rule Cons.IH [rotated])
    next
      case nc: False
      note step = skills_loop_items [OF ne nc, of sk cur ls]
      show ?thesis
      proof (cases cur)
        case None
        with step Cons show ?thesis by simp
      next
        case (Some c)
        show ?thesis
        proof (cases "c = []")
          case True
          with Some step Cons show ?thesis by simp
        next
          case cne: False
          show ?thesis
          proof (cases "map_of sk c")
            case None
            with Some cne step Cons.prems show ?thesis by simp
          next
            case (Some items)
            with \<open>cur = Some c\<close> cne step Cons.prems
            have run: "skills_loop (dict_set sk c (items @ skill_items ?ln)) cur ls = Inr sk'"
              by simp
            have "\<forall>t \<in> set (items @ skill_items ?ln). clean_token t"
              using clean_lookup [OF Cons.prems(1) Some] skill_items_clean by auto
            with Cons.prems(1) have "clean_skills (dict_set sk c (items @ skill_items ?ln))"
              by (rule clean_dict_set)
            then show ?thesis using run by (rule Cons.IH)
          qed
        qed
      qed
    qed
  qed
qed


lemma skills_loop_step:
  assumes "keyed sk cur"
  shows "\<exists>sk2 cur2. keyed sk2 cur2 \<and> (\<forall>ls. skills_loop sk cur (raw # ls) = skills_loop sk2 cur2 ls)"
proof (cases "strip raw = []")
  case True
  with assms show ?thesis by (intro exI [of _ sk] exI [of _ cur]) simp
next
  case ne: False
  show ?thesis
  proof (cases "\<not> contains [58] (strip raw) \<and> is_category (strip raw)")
    case True
    have "keyed (dict_set sk (strip raw) []) (Some (strip raw))"
      by (simp add: keyed_def map_of_dict_set)
    then show ?thesis
      using skills_loop_category [OF ne True] by blast
  next
    case nc: False
    note step = skills_loop_items [OF ne nc, of sk cur]
    show ?thesis
    proof (cases cur)
      case None
      with step assms show ?thesis by (intro exI [of _ sk] exI [of _ cur]) simp
    next
      case (Some c)
      show ?thesis
      proof (cases "c = []")
        case True
        with Some step assms show ?thesis by (intro exI [of _ sk] exI [of _ cur]) simp
      next
        case cne: False
        from assms Some obtain items where items: "map_of sk c = Some items"
          by (auto simp: keyed_def)
        have "keyed (dict_set sk c (items @ skill_items (strip raw))) cur"
          using Some by (simp add: keyed_def map_of_dict_set)
        moreover have "\<forall>ls. skills_loop sk cur (raw # ls) =
            skills_loop (dict_set sk c (items @ skill_items (strip raw))) cur ls"
          using step Some cne items by simp
        ultimately show ?thesis by blast
      qed
    qed
  qed
qed

lemma skills_loop_total: "keyed sk cur \<Longrightarrow> \<exists>sk'. skills_loop sk cur ls = Inr sk'"
proof (induction ls arbitrary: sk cur)
  case Nil
  then show ?case by simp
next
  case (Cons raw ls)
  from skills_loop_step [OF Cons.prems, of raw] obtain sk2 cur2
    where "keyed sk2 cur2" and "skills_loop sk cur (raw # ls) = skills_loop sk2 cur2 ls"
    by blast
  with Cons.IH [of sk2 cur2] show ?case by simp
qed

lemma skills_loop_agree:
  "keyed skA cur \<Longrightarrow> keyed skB cur \<Longrightarrow> map_of skA k = map_of skB k \<Longrightarrow>
   \<exists>ra rb. skills_loop skA cur ls = Inr ra \<and> skills_loop skB cur ls = Inr rb \<and>
           map_of ra k = map_of rb k"
proof (induction ls arbitrary: skA skB cur)
  case Nil
  then show ?case by simp
next
  case (Cons raw ls)
  show ?case
  proof (cases "strip raw = []")
    case True
    with Cons.IH [OF Cons.prems] show ?thesis by simp
  next
    case ne: False
    show ?thesis
    proof (cases "\<not> contains [58] (strip raw) \<and> is_category (strip raw)")
      case True
      have "\<exists>ra rb. skills_loop (dict_set skA (strip raw) []) (Some (strip raw)) ls = Inr ra \<and>
              skills_loop (dict_set skB (strip raw) []) (Some (strip raw)) ls = Inr rb \<and>
              map_of ra k = map_of rb k"
        using Cons.prems(3) by (intro Cons.IH) (simp_all add: keyed_def map_of_dict_set)
      then show ?thesis
        by (simp only: skills_loop_category [OF ne True])
    next
      case nc: False
      note stepA = skills_loop_items [OF ne nc, of skA cur ls]
      note stepB = skills_loop_items [OF ne nc, of skB cur ls]
      show ?thesis
      proof (cases cur)
        case None
        with stepA stepB Cons.IH [OF Cons.prems] show ?thesis by simp
      next
        case (Some c)
        show ?thesis
        proof (cases "c = []")
          case True
          with Some stepA stepB Cons.IH [OF Cons.prems] show ?thesis by simp
        next
          case cne: False
          from Cons.prems(1,2) Some obtain ia ib
            where ia: "map_of skA c = Some ia" and ib: "map_of skB c = Some ib"
            by (auto simp: keyed_def)
          let ?its = "skill_items (strip raw)"
          have same: "map_of (dict_set skA c (ia @ ?its)) k = map_of (dict_set skB c (ib @ ?its)) k"
            using Cons.prems(3) ia ib by (auto simp: map_of_dict_set)
          have "\<exists>ra rb. skills_loop (dict_set skA c (ia @ ?its)) cur ls = Inr ra \<and>
              skills_loop (dict_set skB c (ib @ ?its)) cur ls = Inr rb \<and>
              map_of ra k = map_of rb k"
            using same Some by (intro Cons.IH) (simp_all add: keyed_def map_of_dict_set)
          then show ?thesis
            using stepA stepB Some cne ia ib by simp
        qed
      qed
    qed
  qed
qed

lemma skills_loop_reset:
  assumes "strip c \<noteq> []" and "\<not> contains [58] (strip c) \<and> is_category (strip c)"
  shows "keyed sk cur \<Longrightarrow>
    \<exists>r r'. skills_loop sk cur (pre @ c # post) = Inr r \<and>
           skills_loop [] None (c # post) = Inr r' \<and>
           map_of r (strip c) = map_of r' (strip c)"
proof (induction pre arbitrary: sk cur)
  case Nil
  have "\<exists>ra rb. skills_loop (dict_set sk (strip c) []) (Some (strip c)) post = Inr ra \<and>
          skills_loop (dict_set [] (strip c) []) (Some (strip c)) post = Inr rb \<and>
          map_of ra (strip c) = map_of rb (strip c)"
    by (rule skills_loop_agree) (simp_all add: keyed_def map_of_dict_set)
  then show ?case
    by (simp only: append_Nil skills_loop_category [OF assms])
next
  case (Cons raw pre)
  from skills_loop_step [OF Cons.prems, of raw] obtain sk2 cur2
    where k: "keyed sk2 cur2"
      and "skills_loop sk cur (raw # (pre @ c # post)) = skills_loop sk2 cur2 (pre @ c # post)"
    by blast
  with Cons.IH [OF k] show ?case by simp
qed


lemmas skills_eval = parse_skills_def splitlines_def is_linebreak_def skill_items_def
  is_category_def is_alpha_space_def is_alpha_def at_end_def

text \<open>
  C7. The token lists that \<open>parse_skills\<close> returns are fixed points of comma-split-and-trim:
  splitting every token on commas and trimming gives the same list back, every token being
  non-empty, free of commas and free of leading and trailing white space.
\<close>

theorem parse_skills_tokens_fixed:
  "\<exists>sk. parse_skills skills_text = Inr sk \<and>
     (\<forall>p \<in> set sk.
        concat (map skill_items (snd p)) = snd p \<and>
        (\<forall>t \<in> set (snd p). t \<noteq> [] \<and> 44 \<notin> set t \<and> strip t = t))"
proof -
  have k: "keyed [] None" by (simp add: keyed_def)
  from skills_loop_total [OF k] obtain sk
    where sk: "skills_loop [] None (splitlines skills_text) = Inr sk" by blast
  have "clean_skills []" by (simp add: clean_skills_def)
  then have c: "clean_skills sk" using sk by (rule skills_loop_clean)
  have "\<forall>p \<in> set sk.
        concat (map skill_items (snd p)) = snd p \<and>
        (\<forall>t \<in> set (snd p). t \<noteq> [] \<and> 44 \<notin> set t \<and> strip t = t)"
  proof
    fix p
    assume "p \<in> set sk"
    with c have all: "\<forall>t \<in> set (snd p). clean_token t" by (simp add: clean_skills_def)
    then have "concat (map skill_items (snd p)) = snd p" by (rule resplit_clean)
    with all show "concat (map skill_items (snd p)) = snd p \<and>
        (\<forall>t \<in> set (snd p). t \<noteq> [] \<and> 44 \<notin> set t \<and> strip t = t)"
      by (simp add: clean_token_def)
  qed
  with sk show ?thesis by (simp add: parse_skills_def)
qed

theorem parse_skills_tokens_fixed_witness:
  "parse_skills (py ''Languages\<newline> Python , Go,\<newline>'') =
     Inr [(py ''Languages'', [py ''Python'', py ''Go''])] \<and>
   concat (map skill_items [py ''Python'', py ''Go'']) = [py ''Python'', py ''Go'']"
proof -
  have e: "parse_skills (py ''Languages\<newline> Python , Go,\<newline>'') =
     Inr [(py ''Languages'', [py ''Python'', py ''Go''])]"
    by (simp add: skills_eval str_eval)
  from parse_skills_tokens_fixed [of "py ''Languages\<newline> Python , Go,\<newline>''"]
  have "concat (map skill_items [py ''Python'', py ''Go'']) = [py ''Python'', py ''Go'']"
    unfolding e by simp
  with e show ?thesis by (simp only: simp_thms)
qed

text \<open>
  C10. When a category line occurs in the skills text, what the returned mapping binds to
  that category is what parsing the lines from that occurrence on would bind to it: the
  tokens gathered under an earlier occurrence of the same category are discarded.
\<close>

theorem repeated_category_resets:
  assumes "splitlines skills_text = pre @ c # post"
    and "strip c \<noteq> []"
    and "\<not> contains [58] (strip c) \<and> is_category (strip c)"
  shows "\<exists>sk sk'. parse_skills skills_text = Inr sk \<and>
           skills_loop [] None (c # post) = Inr sk' \<and>
           map_of sk (strip c) = map_of sk' (strip c)"
proof -
  have "keyed [] None" by (simp add: keyed_def)
  from skills_loop_reset [OF assms(2,3) this, of pre post] show ?thesis
    by (simp add: parse_skills_def assms(1))
qed

theorem repeated_category_resets_witness:
  "splitlines (py ''Tools\<newline>Git, Bash\<newline>Tools\<newline>Docker, K8s'') =
     [py ''Tools'', py ''Git, Bash''] @ py ''Tools'' # [py ''Docker, K8s''] \<and>
   parse_skills (py ''Tools\<newline>Git, Bash\<newline>Tools\<newline>Docker, K8s'') =
     Inr [(py ''Tools'', [py ''Docker'', py ''K8s''])] \<and>
   (\<exists>sk sk'. parse_skills (py ''Tools\<newline>Git, Bash\<newline>Tools\<newline>Docker, K8s'') = Inr sk \<and>
      skills_loop [] None (py ''Tools'' # [py ''Docker, K8s'']) = Inr sk' \<and>
      map_of sk (strip (py ''Tools'')) = map_of sk' (strip (py ''Tools'')))"
proof -
  have l: "splitlines (py ''Tools\<newline>Git, Bash\<newline>Tools\<newline>Docker, K8s'') =
     [py ''Tools'', py ''Git, Bash''] @ py ''Tools'' # [py ''Docker, K8s'']"
    by (simp add: skills_eval str_eval)
  have n: "strip (py ''Tools'') \<noteq> []"
    by (simp add: str_eval)
  have c: "\<not> contains [58] (strip (py ''Tools'')) \<and> is_category (strip (py ''Tools''))"
    by (simp add: skills_eval str_eval)
  have e: "parse_skills (py ''Tools\<newline>Git, Bash\<newline>Tools\<newline>Docker, K8s'') =
     Inr [(py ''Tools'', [py ''Docker'', py ''K8s''])]"
    by (simp add: skills_eval str_eval)
  from l e repeated_category_resets [OF l n c] show ?thesis by (simp only: simp_thms)
qed

section \<open>Properties of \<open>extract_certificates\<close>\<close>

lemma strip_by_decomp:
  "\<exists>pre suf. s = pre @ strip_by P s @ suf \<and> (\<forall>x \<in> set pre. P x) \<and> (\<forall>x \<in> set suf. P x)"
proof -
  let ?d = "dropWhile P s"
  have "rev (rev ?d) = rev (takeWhile P (rev ?d) @ dropWhile P (rev ?d))"
    by (simp only: takeWhile_dropWhile_id)
  then have d: "?d = strip_by P s @ rev (takeWhile P (rev ?d))"
    by (simp only: rev_rev_ident rev_append strip_by_def)
  have "s = takeWhile P s @ ?d" by simp
  with d have "s = takeWhile P s @ strip_by P s @ rev (takeWhile P (rev ?d))" by simp
  moreover have "\<forall>x \<in> set (takeWhile P s). P x" by (auto dest: set_takeWhileD)
  moreover have "\<forall>x \<in> set (rev (takeWhile P (rev ?d))). P x" by (auto dest: set_takeWhileD)
  ultimately show ?thesis by blast
qed

lemmas lines_eval = splitlines_def is_linebreak_def nonblank_lines_def bullets_def
  strip_chars_def lstrip_chars_def

text \<open>
  C8 (amended). \<open>extract_certificates\<close> returns one entry per non-blank line, the line
  with its leading and its trailing bullet characters (U+2022, hyphen, space) removed, and
  the empty list when the text has no non-blank line.
\<close>

theorem certificates_per_line:
  "list_all2
     (\<lambda>ln e. \<exists>pre suf. ln = pre @ e @ suf \<and> set pre \<subseteq> set bullets \<and> set suf \<subseteq> set bullets \<and>
        (e = [] \<or> hd e \<notin> set bullets \<and> last e \<notin> set bullets))
     (nonblank_lines t) (extract_certificates t) \<and>
   ((\<forall>ln \<in> set (splitlines t). strip ln = []) \<longrightarrow> extract_certificates t = [])"
proof
  have "\<exists>pre suf. ln = pre @ strip_chars bullets ln @ suf \<and> set pre \<subseteq> set bullets \<and>
          set suf \<subseteq> set bullets \<and>
          (strip_chars bullets ln = [] \<or>
           hd (strip_chars bullets ln) \<notin> set bullets \<and> last (strip_chars bullets ln) \<notin> set bullets)"
    for ln
    using strip_by_decomp [of ln "\<lambda>c. c \<in> set bullets"]
      strip_by_ends [of "\<lambda>c. c \<in> set bullets" ln]
    unfolding strip_chars_def by blast
  then show "list_all2
     (\<lambda>ln e. \<exists>pre suf. ln = pre @ e @ suf \<and> set pre \<subseteq> set bullets \<and> set suf \<subseteq> set bullets \<and>
        (e = [] \<or> hd e \<notin> set bullets \<and> last e \<notin> set bullets))
     (nonblank_lines t) (extract_certificates t)"
    unfolding extract_certificates_def list_all2_map2 by (simp add: list_all2_same)
  show "(\<forall>ln \<in> set (splitlines t). strip ln = []) \<longrightarrow> extract_certificates t = []"
    by (simp add: extract_certificates_def nonblank_lines_def)
qed

theorem certificates_per_line_witness:
  "nonblank_lines ([8226, 32] @ py ''AWS\<newline>  \<newline>- Azure -'') = [[8226, 32] @ py ''AWS'', py ''- Azure -''] \<and>
   extract_certificates ([8226, 32] @ py ''AWS\<newline>  \<newline>- Azure -'') = [py ''AWS'', py ''Azure''] \<and>
   list_all2
     (\<lambda>ln e. \<exists>pre suf. ln = pre @ e @ suf \<and> set pre \<subseteq> set bullets \<and> set suf \<subseteq> set bullets \<and>
        (e = [] \<or> hd e \<notin> set bullets \<and> last e \<notin> set bullets))
     [[8226, 32] @ py ''AWS'', py ''- Azure -''] [py ''AWS'', py ''Azure''] \<and>
   splitlines (py '' \<newline>  '') = [py '' '', py ''  ''] \<and>
   extract_certificates (py '' \<newline>  '') = []"
proof -
  have n: "nonblank_lines ([8226, 32] @ py ''AWS\<newline>  \<newline>- Azure -'') = [[8226, 32] @ py ''AWS'', py ''- Azure -'']"
    by (simp add: lines_eval str_eval)
  have e: "extract_certificates ([8226, 32] @ py ''AWS\<newline>  \<newline>- Azure -'') = [py ''AWS'', py ''Azure'']"
    by (simp add: extract_certificates_def lines_eval str_eval)
  have s: "splitlines (py '' \<newline>  '') = [py '' '', py ''  '']"
    by (simp add: lines_eval str_eval)
  have b: "\<forall>ln \<in> set (splitlines (py '' \<newline>  '')). strip ln = []"
    unfolding s by (simp add: str_eval)
  from certificates_per_line [of "[8226, 32] @ py ''AWS\<newline>  \<newline>- Azure -''"]
  have 1: "list_all2
     (\<lambda>ln e. \<exists>pre suf. ln = pre @ e @ suf \<and> set pre \<subseteq> set bullets \<and> set suf \<subseteq> set bullets \<and>
        (e = [] \<or> hd e \<notin> set bullets \<and> last e \<notin> set bullets))
     [[8226, 32] @ py ''AWS'', py ''- Azure -''] [py ''AWS'', py ''Azure'']"
    unfolding n e by (rule conjunct1)
  from certificates_per_line [of "py '' \<newline>  ''"] b
  have 2: "extract_certificates (py '' \<newline>  '') = []" by blast
  from n e 1 s 2 show ?thesis by (simp only: simp_thms)
qed

theorem certificates_trailing_bullets_removed:
  "extract_certificates (py ''- AWS Cloud -'') = [py ''AWS Cloud''] \<and>
   map (lstrip_chars bullets) (nonblank_lines (py ''- AWS Cloud -'')) = [py ''AWS Cloud -'']"
  by (simp add: extract_certificates_def lines_eval str_eval)

section \<open>Properties of \<open>parse_education\<close>\<close>

lemma length_section_trace: "length (section_trace cur ls) = length ls"
  by (induction ls arbitrary: cur) simp_all

lemma education_loop_routed:
  "education_loop (btech, interm, tenth) cur ls =
     (btech @ routed cur (Some Btech) ls, interm @ routed cur (Some Intermed) ls,
      tenth @ routed cur (Some Tenth) ls)"
proof (induction ls arbitrary: btech interm tenth cur)
  case Nil
  then show ?case by (simp add: routed_def)
next
  case (Cons ln ls)
  show ?case
  proof (cases "next_section cur ln")
    case None
    then show ?thesis by (simp add: Cons.IH routed_def Let_def)
  next
    case (Some b)
    then show ?thesis by (cases b) (simp_all add: Cons.IH routed_def Let_def)
  qed
qed

lemma next_section_stays: "next_section (Some b) ln \<noteq> None"
  by (simp add: next_section_def Let_def)

lemma routed_none_after_trigger: "routed (Some b) None ls = []"
proof (induction ls arbitrary: b)
  case Nil
  then show ?case by (simp add: routed_def)
next
  case (Cons ln ls)
  obtain b' where b': "next_section (Some b) ln = Some b'"
    using next_section_stays [of b ln] by auto
  with Cons.IH [of b'] show ?case by (simp add: routed_def)
qed

lemma routed_dropped: "routed None None ls = takeWhile (\<lambda>ln. next_section None ln = None) ls"
proof (induction ls)
  case Nil
  then show ?case by (simp add: routed_def)
next
  case (Cons ln ls)
  show ?case
  proof (cases "next_section None ln")
    case None
    with Cons show ?thesis by (simp add: routed_def)
  next
    case (Some b)
    with routed_none_after_trigger [of b ls] show ?thesis by (simp add: routed_def)
  qed
qed

lemma tagged_partition:
  "mset (map fst (filter (\<lambda>p. snd p = None) ps)) +
   mset (map fst (filter (\<lambda>p. snd p = Some Btech) ps)) +
   mset (map fst (filter (\<lambda>p. snd p = Some Intermed) ps)) +
   mset (map fst (filter (\<lambda>p. snd p = Some Tenth) ps)) = mset (map fst ps)"
proof (induction ps)
  case Nil
  then show ?case by simp
next
  case (Cons p ps)
  show ?case
  proof (cases "snd p")
    case None
    with Cons show ?thesis by simp
  next
    case (Some b)
    with Cons show ?thesis by (cases b) simp_all
  qed
qed

lemma routed_partition:
  "mset (routed cur None ls) + mset (routed cur (Some Btech) ls) +
   mset (routed cur (Some Intermed) ls) + mset (routed cur (Some Tenth) ls) = mset ls"
  unfolding routed_def
  by (simp only: tagged_partition map_fst_zip length_section_trace)


lemmas education_eval = parse_education_def education_lines_def next_section_def

text \<open>
  C6. \<open>parse_education\<close> appends every non-blank, bullet-stripped line to the bucket that
  is current once the line's own keywords have been looked at, so a line that switches
  the bucket lands in the new bucket; the lines before the first trigger are dropped; the
  three buckets and the dropped lines partition the line occurrences. On the example
  text the buckets are as the specification lists them.
\<close>

theorem parse_education_partition:
  "parse_education edu_text =
     (routed None (Some Btech) (education_lines edu_text),
      routed None (Some Intermed) (education_lines edu_text),
      routed None (Some Tenth) (education_lines edu_text)) \<and>
   routed None None (education_lines edu_text) =
     takeWhile (\<lambda>ln. next_section None ln = None) (education_lines edu_text) \<and>
   mset (routed None None (education_lines edu_text)) +
   mset (routed None (Some Btech) (education_lines edu_text)) +
   mset (routed None (Some Intermed) (education_lines edu_text)) +
   mset (routed None (Some Tenth) (education_lines edu_text)) =
     mset (education_lines edu_text) \<and>
   parse_education
     (py ''Bachelor of Engineering\<newline>XYZ College\<newline>Intermediate\<newline>ABC Junior College'') =
     ([py ''Bachelor of Engineering'', py ''XYZ College''],
      [py ''Intermediate'', py ''ABC Junior College''], [])"
proof -
  have 1: "parse_education edu_text =
     (routed None (Some Btech) (education_lines edu_text),
      routed None (Some Intermed) (education_lines edu_text),
      routed None (Some Tenth) (education_lines edu_text))"
    by (simp add: parse_education_def education_loop_routed)
  have 2: "parse_education
     (py ''Bachelor of Engineering\<newline>XYZ College\<newline>Intermediate\<newline>ABC Junior College'') =
     ([py ''Bachelor of Engineering'', py ''XYZ College''],
      [py ''Intermediate'', py ''ABC Junior College''], [])"
    by (simp add: education_eval lines_eval str_eval)
  show ?thesis
    by (intro conjI) (rule 1, rule routed_dropped, rule routed_partition, rule 2)
qed

theorem parse_education_partition_witness:
  "education_lines (py ''Resume\<newline>- B.Tech CSE\<newline>\<newline>High School\<newline>XYZ'') =
     [py ''Resume'', py ''B.Tech CSE'', py ''High School'', py ''XYZ''] \<and>
   parse_education (py ''Resume\<newline>- B.Tech CSE\<newline>\<newline>High School\<newline>XYZ'') =
     ([py ''B.Tech CSE''], [], [py ''High School'', py ''XYZ'']) \<and>
   routed None None (education_lines (py ''Resume\<newline>- B.Tech CSE\<newline>\<newline>High School\<newline>XYZ'')) =
     [py ''Resume'']"
proof -
  have l: "education_lines (py ''Resume\<newline>- B.Tech CSE\<newline>\<newline>High School\<newline>XYZ'') =
     [py ''Resume'', py ''B.Tech CSE'', py ''High School'', py ''XYZ'']"
    by (simp add: education_eval lines_eval str_eval)
  have e: "parse_education (py ''Resume\<newline>- B.Tech CSE\<newline>\<newline>High School\<newline>XYZ'') =
     ([py ''B.Tech CSE''], [], [py ''High School'', py ''XYZ''])"
    by (simp add: education_eval lines_eval str_eval)
  have t: "takeWhile (\<lambda>ln. next_section None ln = None)
      [py ''Resume'', py ''B.Tech CSE'', py ''High School'', py ''XYZ''] = [py ''Resume'']"
    by (simp add: education_eval str_eval)
  from parse_education_partition [of "py ''Resume\<newline>- B.Tech CSE\<newline>\<newline>High School\<newline>XYZ''"]
  have "routed None None (education_lines (py ''Resume\<newline>- B.Tech CSE\<newline>\<newline>High School\<newline>XYZ'')) =
     [py ''Resume'']"
    unfolding l t by (elim conjE)
  with l e show ?thesis by (simp only: simp_thms)
qed

section \<open>Properties of \<open>extract_phone\<close>\<close>














section \<open>Properties of \<open>extract_section\<close>\<close>




























section \<open>Totality and default values of the extractors\<close>










end
